theory Spec2Isabelle
  imports Main "HOL-Library.Word"
begin

section \<open>Data model\<close>

text \<open>
  The reader works on raw bytes (the file is opened in mode \<open>rb\<close>) and produces Python
  \<open>str\<close> values. A byte is an 8-bit word; a \<open>str\<close> is its sequence of Unicode code
  points.
\<close>

type_synonym byte = "8 word"
type_synonym str = "nat list"

definition newline :: byte where
  "newline = 0x0A"

definition LF :: nat where
  "LF = 10"

definition CR :: nat where
  "CR = 13"

section \<open>Library operations used by the reader\<close>

subsection \<open>\<open>bytes.decode("utf-8")\<close>\<close>

text \<open>
  The strict UTF-8 decoder of the Python runtime: \<open>None\<close> stands for
  \<open>UnicodeDecodeError\<close>. It accepts exactly the well-formed byte sequences of the Unicode
  standard: no overlong forms, no surrogates, nothing above U+10FFFF, no truncated
  sequence.
\<close>

definition is_ascii :: "byte \<Rightarrow> bool" where
  "is_ascii b \<longleftrightarrow> b < 0x80"

definition is_lead2 :: "byte \<Rightarrow> bool" where
  "is_lead2 b \<longleftrightarrow> 0xC2 \<le> b \<and> b \<le> 0xDF"

definition is_lead3 :: "byte \<Rightarrow> bool" where
  "is_lead3 b \<longleftrightarrow> 0xE0 \<le> b \<and> b \<le> 0xEF"

definition is_lead4 :: "byte \<Rightarrow> bool" where
  "is_lead4 b \<longleftrightarrow> 0xF0 \<le> b \<and> b \<le> 0xF4"

definition is_cont :: "byte \<Rightarrow> bool" where
  "is_cont b \<longleftrightarrow> 0x80 \<le> b \<and> b \<le> 0xBF"

definition cont_bits :: "byte \<Rightarrow> nat" where
  "cont_bits b = unat b - 0x80"

definition second_ok3 :: "byte \<Rightarrow> byte \<Rightarrow> bool" where
  "second_ok3 b0 b1 \<longleftrightarrow>
     (if b0 = 0xE0 then 0xA0 \<le> b1 \<and> b1 \<le> 0xBF
      else if b0 = 0xED then 0x80 \<le> b1 \<and> b1 \<le> 0x9F
      else is_cont b1)"

definition second_ok4 :: "byte \<Rightarrow> byte \<Rightarrow> bool" where
  "second_ok4 b0 b1 \<longleftrightarrow>
     (if b0 = 0xF0 then 0x90 \<le> b1 \<and> b1 \<le> 0xBF
      else if b0 = 0xF4 then 0x80 \<le> b1 \<and> b1 \<le> 0x8F
      else is_cont b1)"

fun utf8_decode :: "byte list \<Rightarrow> str option" where
  "utf8_decode [] = Some []"
| "utf8_decode (b0 # bs) =
     (if is_ascii b0 then map_option ((#) (unat b0)) (utf8_decode bs)
      else if is_lead2 b0 then
        (case bs of
           b1 # r \<Rightarrow>
             if is_cont b1
             then map_option ((#) ((unat b0 - 0xC0) * 64 + cont_bits b1)) (utf8_decode r)
             else None
         | _ \<Rightarrow> None)
      else if is_lead3 b0 then
        (case bs of
           b1 # b2 # r \<Rightarrow>
             if second_ok3 b0 b1 \<and> is_cont b2
             then map_option
                    ((#) ((unat b0 - 0xE0) * 4096 + cont_bits b1 * 64 + cont_bits b2))
                    (utf8_decode r)
             else None
         | _ \<Rightarrow> None)
      else if is_lead4 b0 then
        (case bs of
           b1 # b2 # b3 # r \<Rightarrow>
             if second_ok4 b0 b1 \<and> is_cont b2 \<and> is_cont b3
             then map_option
                    ((#) ((unat b0 - 0xF0) * 262144 + cont_bits b1 * 4096
                          + cont_bits b2 * 64 + cont_bits b3))
                    (utf8_decode r)
             else None
         | _ \<Rightarrow> None)
      else None)"

subsection \<open>\<open>bytes.rfind\<close> and \<open>str.rstrip\<close>\<close>

text \<open>
  \<open>rfind xs x\<close> is the highest index at which \<open>x\<close> occurs in \<open>xs\<close>; \<open>None\<close> stands
  for Python's result \<open>-1\<close>.
\<close>

fun rfind :: "'a list \<Rightarrow> 'a \<Rightarrow> nat option" where
  "rfind [] x = None"
| "rfind (y # ys) x =
     (case rfind ys x of
        Some i \<Rightarrow> Some (Suc i)
      | None \<Rightarrow> if y = x then Some 0 else None)"

text \<open>\<open>rstrip line c\<close> removes every trailing occurrence of \<open>c\<close>, as \<open>line.rstrip(c)\<close>.\<close>

definition rstrip :: "'a list \<Rightarrow> 'a \<Rightarrow> 'a list" where
  "rstrip line c = rev (dropWhile (\<lambda>x. x = c) (rev line))"

section \<open>The file as seen by the reader\<close>

text \<open>
  What the path of the reader resolves to. A regular file has its bytes and the offsets at
  which a \<open>seek\<close>/\<open>read\<close> pair fails with an \<open>OSError\<close> (a device error); a
  healthy file has none.
\<close>

datatype path_target =
    NoSuchFile
  | NotReadable
  | RegularFile "byte list" "nat list"

datatype exn = FileNotFoundError | OSError

text \<open>The messages the reader prints; it has no other error channel.\<close>

datatype diagnostic = FileNotFoundMsg | ReadErrorMsg | FinalBytesWarning

text \<open>\<open>open(self.filepath, 'rb')\<close>\<close>

fun open_rb :: "path_target \<Rightarrow> exn + (byte list \<times> nat list)" where
  "open_rb NoSuchFile = Inl FileNotFoundError"
| "open_rb NotReadable = Inl OSError"
| "open_rb (RegularFile content bad) = Inr (content, bad)"

text \<open>\<open>f.seek(position)\<close> followed by \<open>f.read(read_size)\<close>\<close>

definition seek_read :: "byte list \<times> nat list \<Rightarrow> nat \<Rightarrow> nat \<Rightarrow> exn + byte list" where
  "seek_read f position read_size =
     (if position \<in> set (snd f) then Inl OSError
      else Inr (take read_size (drop position (fst f))))"

section \<open>\<open>txt_lines.reverse_lines_chunked\<close>\<close>

subsection \<open>The inner loop: extracting full lines from the buffer\<close>

text \<open>
  One run of the \<open>while True\<close> loop, from the buffer and the lines gathered so far to
  the buffer and the lines at the \<open>break\<close>.
\<close>

function extract_lines :: "byte list \<Rightarrow> str list \<Rightarrow> byte list \<times> str list" where
  "extract_lines buffer lines =
     (case rfind buffer newline of
        None \<Rightarrow> (buffer, lines)
      | Some nl_index \<Rightarrow>
          (let line_bytes = drop (nl_index + 1) buffer;
               buffer1 = take (nl_index + 1) buffer
           in case utf8_decode line_bytes of
                Some line \<Rightarrow>
                  extract_lines (take nl_index buffer1)
                    (if length line > 0 then lines @ [rstrip line CR @ [LF]] else lines)
              | None \<Rightarrow> (line_bytes @ buffer1, lines)))"
  by pat_completeness auto
termination
proof (relation "measure (\<lambda>(buffer, lines). length buffer)")
  have less: "rfind b x = Some i \<Longrightarrow> i < length b" for b :: "byte list" and x i
    by (induction b arbitrary: i) (auto split: option.splits if_splits)
  fix buffer :: "byte list" and lines :: "str list" and nl_index line_bytes buffer1 line
  assume "rfind buffer newline = Some nl_index" "buffer1 = take (nl_index + 1) buffer"
  then show "((take nl_index buffer1,
               if 0 < length (line :: str) then lines @ [rstrip line CR @ [LF]] else lines),
              buffer, lines) \<in> measure (\<lambda>(buffer, lines). length buffer)"
    using less [of buffer newline nl_index] by simp
qed simp

declare extract_lines.simps [simp del]

subsection \<open>The outer loop: fetching chunks backwards\<close>

text \<open>
  The \<open>while position > 0\<close> loop. The chunk size is a natural number here; with
  \<open>chunk_size = 0\<close> the position never moves and the loop does not return, which is the
  value \<open>None\<close>. A failing read leaves the loop with the exception and the lines
  appended to \<open>self.lines\<close> so far.
\<close>

partial_function (option) scan ::
  "byte list \<times> nat list \<Rightarrow> nat \<Rightarrow> nat \<Rightarrow> byte list \<Rightarrow> str list
     \<Rightarrow> (exn \<times> str list + byte list \<times> str list) option" where
  "scan f chunk_size position buffer lines =
     (if position > 0 then
        (let read_size = min chunk_size position;
             position1 = position - read_size
         in case seek_read f position1 read_size of
              Inl e \<Rightarrow> Some (Inl (e, lines))
            | Inr chunk \<Rightarrow>
                (case extract_lines (chunk @ buffer) lines of
                   (buffer1, lines1) \<Rightarrow> scan f chunk_size position1 buffer1 lines1))
      else Some (Inr (buffer, lines)))"

declare scan.simps [code]

subsection \<open>The whole operation\<close>

text \<open>
  What a call leaves behind: the returned list, the attribute \<open>self.lines\<close>, and what
  was printed.
\<close>

record outcome =
  returned :: "str list"
  lines_attr :: "str list"
  printed :: "diagnostic list"

text \<open>The two \<open>except\<close> clauses of the method: both return the empty list.\<close>

fun handler :: "exn \<Rightarrow> str list \<Rightarrow> outcome" where
  "handler FileNotFoundError lines =
     \<lparr>returned = [], lines_attr = lines, printed = [FileNotFoundMsg]\<rparr>"
| "handler OSError lines =
     \<lparr>returned = [], lines_attr = lines, printed = [ReadErrorMsg]\<rparr>"

text \<open>The block after the outer loop: any remaining bytes are decoded as one last line.\<close>

definition flush :: "byte list \<Rightarrow> str list \<Rightarrow> outcome" where
  "flush buffer lines =
     (if buffer \<noteq> [] then
        (case utf8_decode buffer of
           Some line \<Rightarrow>
             \<lparr>returned = lines @ [rstrip line CR @ [LF]],
              lines_attr = lines @ [rstrip line CR @ [LF]],
              printed = []\<rparr>
         | None \<Rightarrow>
             \<lparr>returned = lines, lines_attr = lines, printed = [FinalBytesWarning]\<rparr>)
      else \<lparr>returned = lines, lines_attr = lines, printed = []\<rparr>)"

definition reverse_lines_chunked :: "path_target \<Rightarrow> nat \<Rightarrow> outcome option" where
  "reverse_lines_chunked target chunk_size =
     (case open_rb target of
        Inl e \<Rightarrow> Some (handler e [])
      | Inr f \<Rightarrow>
          (case scan f chunk_size (length (fst f)) [] [] of
             None \<Rightarrow> None
           | Some (Inl (e, lines)) \<Rightarrow> Some (handler e lines)
           | Some (Inr (buffer, lines)) \<Rightarrow> Some (flush buffer lines)))"

subsection \<open>The points of the scan\<close>

text \<open>
  The same two loops as a step relation between the points at which the buffer can be
  observed: the head of the outer loop and the head of the inner loop. A configuration is
  the program point with \<open>position\<close>, \<open>buffer\<close> and \<open>self.lines\<close>.
\<close>

datatype loc = OuterHead | InnerHead

type_synonym config = "loc \<times> nat \<times> byte list \<times> str list"

inductive step :: "byte list \<times> nat list \<Rightarrow> nat \<Rightarrow> config \<Rightarrow> config \<Rightarrow> bool"
  for f :: "byte list \<times> nat list" and chunk_size :: nat where
  fetch:
    "0 < position \<Longrightarrow> read_size = min chunk_size position \<Longrightarrow>
     seek_read f (position - read_size) read_size = Inr chunk \<Longrightarrow>
     step f chunk_size (OuterHead, position, buffer, lines)
       (InnerHead, position - read_size, chunk @ buffer, lines)"
| no_newline:
    "rfind buffer newline = None \<Longrightarrow>
     step f chunk_size (InnerHead, position, buffer, lines)
       (OuterHead, position, buffer, lines)"
| accepted:
    "rfind buffer newline = Some nl_index \<Longrightarrow>
     utf8_decode (drop (nl_index + 1) buffer) = Some line \<Longrightarrow>
     step f chunk_size (InnerHead, position, buffer, lines)
       (InnerHead, position, take nl_index (take (nl_index + 1) buffer),
        if length line > 0 then lines @ [rstrip line CR @ [LF]] else lines)"
| remerged:
    "rfind buffer newline = Some nl_index \<Longrightarrow>
     utf8_decode (drop (nl_index + 1) buffer) = None \<Longrightarrow>
     step f chunk_size (InnerHead, position, buffer, lines)
       (OuterHead, position,
        drop (nl_index + 1) buffer @ take (nl_index + 1) buffer, lines)"

definition reaches :: "byte list \<times> nat list \<Rightarrow> nat \<Rightarrow> config \<Rightarrow> bool" where
  "reaches f chunk_size cfg \<longleftrightarrow>
     (step f chunk_size)\<^sup>*\<^sup>* (OuterHead, length (fst f), [], []) cfg"

text \<open>
  What the two loops still compute from a configuration: from the head of the outer loop
  the rest of the outer loop, from the head of the inner loop the rest of the inner loop
  and then the outer loop.
\<close>

definition resume ::
  "byte list \<times> nat list \<Rightarrow> nat \<Rightarrow> config
     \<Rightarrow> (exn \<times> str list + byte list \<times> str list) option" where
  "resume f chunk_size cfg =
     (case cfg of (loc, position, buffer, lines) \<Rightarrow>
        (case loc of
           OuterHead \<Rightarrow> scan f chunk_size position buffer lines
         | InnerHead \<Rightarrow>
             (case extract_lines buffer lines of
                (buffer1, lines1) \<Rightarrow> scan f chunk_size position buffer1 lines1)))"

section \<open>Notions used to state the properties\<close>

text \<open>\<open>split_sep xs x\<close> is Python's \<open>xs.split(x)\<close>: the spans between occurrences of \<open>x\<close>.\<close>

fun split_sep :: "'a list \<Rightarrow> 'a \<Rightarrow> 'a list list" where
  "split_sep [] x = [[]]"
| "split_sep (y # ys) x =
     (if y = x then [] # split_sep ys x
      else (y # hd (split_sep ys x)) # tl (split_sep ys x))"


text \<open>What the reader appends for a span that decodes: nothing when it is empty.\<close>

definition emitted :: "str \<Rightarrow> str list" where
  "emitted line = (if length line > 0 then [rstrip line CR @ [LF]] else [])"

text \<open>
  The specification's reading of a text as its forward sequence of lines: a final
  terminator opens no further line, a carriage return before the terminator belongs to the
  terminator, and every line carries one \<open>\n\<close>.
\<close>

definition strip_one :: "'a list \<Rightarrow> 'a \<Rightarrow> 'a list" where
  "strip_one line c = (if line \<noteq> [] \<and> last line = c then butlast line else line)"

definition forward_lines :: "str \<Rightarrow> str list" where
  "forward_lines t =
     map (\<lambda>line. strip_one line CR @ [LF])
       (if last (split_sep t LF) = [] then butlast (split_sep t LF) else split_sep t LF)"

text \<open>
  The buffer as a slice of the file: it starts at the position and ends at the end of the
  file or just before a terminator; at the head of the outer loop it holds no terminator,
  at the head of the inner loop none behind its first \<open>chunk_size\<close> bytes.
\<close>

definition slice_inv :: "byte list \<Rightarrow> nat \<Rightarrow> config \<Rightarrow> bool" where
  "slice_inv content chunk_size cfg \<longleftrightarrow>
     (case cfg of (loc, position, buffer, lines) \<Rightarrow>
        (\<exists>xs ys. content = xs @ buffer @ ys \<and> length xs = position \<and>
                 (ys = [] \<or> hd ys = newline)) \<and>
        (case loc of
           OuterHead \<Rightarrow> newline \<notin> set buffer
         | InnerHead \<Rightarrow> newline \<notin> set (drop chunk_size buffer)))"

section \<open>Facts about searching and splitting\<close>

lemma rfind_None: "rfind xs x = None \<longleftrightarrow> x \<notin> set xs"
  by (induction xs) (auto split: option.splits)

lemma rfind_Some:
  "rfind xs x = Some i \<Longrightarrow>
     i < length xs \<and> xs = take i xs @ x # drop (Suc i) xs \<and> x \<notin> set (drop (Suc i) xs)"
proof (induction xs arbitrary: i)
  case Nil
  then show ?case by simp
next
  case (Cons y ys)
  show ?case
  proof (cases "rfind ys x")
    case None
    with Cons.prems have "y = x" "i = 0" by (auto split: if_splits)
    with None show ?thesis by (simp add: rfind_None)
  next
    case (Some j)
    with Cons.prems have i: "i = Suc j" by simp
    from Cons.IH [OF Some] show ?thesis unfolding i by simp
  qed
qed

lemma split_sep_nonempty [simp]: "split_sep xs x \<noteq> []"
  by (induction xs) auto

lemma split_sep_no_sep: "x \<notin> set xs \<Longrightarrow> split_sep xs x = [xs]"
  by (induction xs) auto

lemma split_sep_append_sep: "split_sep (xs @ x # ys) x = split_sep xs x @ split_sep ys x"
  by (induction xs) auto

lemma split_sep_append:
  "split_sep (xs @ ys) x =
     butlast (split_sep xs x) @ [last (split_sep xs x) @ hd (split_sep ys x)] @ tl (split_sep ys x)"
proof (induction xs)
  case Nil
  then show ?case by simp
next
  case (Cons a xs)
  obtain s ss where S: "split_sep xs x = s # ss"
    by (cases "split_sep xs x") auto
  show ?case
  proof (cases ss)
    case Nil
    with S Cons.IH show ?thesis by simp
  next
    case (Cons s' ss')
    with S Cons.IH show ?thesis by simp
  qed
qed

lemma split_sep_span_free: "s \<in> set (split_sep xs x) \<Longrightarrow> x \<notin> set s"
proof (induction xs arbitrary: s)
  case Nil
  then show ?case by simp
next
  case (Cons a xs)
  then show ?case
    by (cases "split_sep xs x") (auto split: if_splits)
qed

lemma split_sep_prepend:
  assumes "split_sep ys x = s # rest"
  shows "split_sep (xs @ ys) x = split_sep (xs @ s) x @ rest"
proof -
  have "s \<in> set (split_sep ys x)" using assms by simp
  then have "x \<notin> set s" by (rule split_sep_span_free)
  then have s: "split_sep s x = [s]" by (rule split_sep_no_sep)
  have "split_sep (xs @ ys) x
      = butlast (split_sep xs x) @ [last (split_sep xs x) @ s] @ rest"
    by (simp add: split_sep_append [of xs ys] assms)
  also have "\<dots> = split_sep (xs @ s) x @ rest"
    by (simp add: split_sep_append [of xs s] s)
  finally show ?thesis .
qed

lemma split_sep_tl_subset:
  "set (tl (split_sep ys x)) \<subseteq> set (tl (split_sep (xs @ ys) x))"
proof (cases "butlast (split_sep xs x)")
  case Nil
  then show ?thesis by (simp add: split_sep_append [of xs ys])
next
  case (Cons a list)
  then show ?thesis by (auto simp add: split_sep_append [of xs ys])
qed


lemma split_sep_span_member:
  assumes "x \<notin> set s" "ys = [] \<or> hd ys = x"
  shows "s \<in> set (split_sep (xs @ x # s @ ys) x)"
proof (cases ys)
  case Nil
  then show ?thesis
    by (simp add: split_sep_append_sep split_sep_no_sep [OF assms(1)])
next
  case (Cons y ys')
  with assms(2) have "ys = x # ys'" by simp
  then have "split_sep (s @ ys) x = [s] @ split_sep ys' x"
    by (simp add: split_sep_append_sep split_sep_no_sep [OF assms(1)])
  then show ?thesis by (simp add: split_sep_append_sep)
qed

section \<open>Facts about the decoder\<close>

lemma utf8_decode_Nil_iff: "utf8_decode bs = Some [] \<longleftrightarrow> bs = []"
  by (cases bs) (auto split: list.splits)

lemma is_cont_not_newline: "is_cont b \<Longrightarrow> b \<noteq> newline"
  by (auto simp: is_cont_def newline_def)

lemma second_ok3_not_newline: "second_ok3 b0 b \<Longrightarrow> b \<noteq> newline"
  by (auto simp: second_ok3_def is_cont_def newline_def split: if_splits)

lemma second_ok4_not_newline: "second_ok4 b0 b \<Longrightarrow> b \<noteq> newline"
  by (auto simp: second_ok4_def is_cont_def newline_def split: if_splits)

lemma lead_not_newline: "is_lead2 b \<or> is_lead3 b \<or> is_lead4 b \<Longrightarrow> b \<noteq> newline"
  by (auto simp: is_lead2_def is_lead3_def is_lead4_def newline_def)

lemma ascii_LF_iff: "unat (b :: byte) = LF \<longleftrightarrow> b = newline"
  by (auto simp: newline_def LF_def word_unat_eq_iff)

lemma cp2_not_LF: "is_lead2 b0 \<Longrightarrow> (unat b0 - 0xC0) * 64 + n \<noteq> LF"
proof -
  assume "is_lead2 b0"
  then have "2 \<le> unat b0 - 0xC0"
    by (auto simp: is_lead2_def word_le_nat_alt)
  then have "2 * 64 \<le> (unat b0 - 0xC0) * 64"
    by (rule mult_le_mono1)
  then show ?thesis by (simp add: LF_def)
qed

lemma cp3_not_LF:
  "is_lead3 b0 \<Longrightarrow> second_ok3 b0 b1 \<Longrightarrow>
     (unat b0 - 0xE0) * 4096 + cont_bits b1 * 64 + n \<noteq> LF"
  by (cases "b0 = 0xE0")
     (auto simp: is_lead3_def word_le_nat_alt LF_def second_ok3_def cont_bits_def
                 word_unat_eq_iff split: if_splits)

lemma cp4_not_LF:
  "is_lead4 b0 \<Longrightarrow> second_ok4 b0 b1 \<Longrightarrow>
     (unat b0 - 0xF0) * 262144 + cont_bits b1 * 4096 + n \<noteq> LF"
  by (cases "b0 = 0xF0")
     (auto simp: is_lead4_def word_le_nat_alt LF_def second_ok4_def cont_bits_def
                 word_unat_eq_iff split: if_splits)

text \<open>The first character of a decodable byte string.\<close>

lemma utf8_decode_first:
  assumes "utf8_decode (b0 # bs) = Some t"
  shows "\<exists>pre r cp t'. b0 # bs = pre @ r \<and> pre \<noteq> [] \<and> utf8_decode r = Some t' \<and> t = cp # t' \<and>
           (\<forall>s. utf8_decode (pre @ s) = map_option ((#) cp) (utf8_decode s)) \<and>
           ((pre = [newline] \<and> cp = LF) \<or> (newline \<notin> set pre \<and> cp \<noteq> LF))"
proof -
  consider (one) "is_ascii b0"
    | (two) "\<not> is_ascii b0" "is_lead2 b0"
    | (three) "\<not> is_ascii b0" "\<not> is_lead2 b0" "is_lead3 b0"
    | (four) "\<not> is_ascii b0" "\<not> is_lead2 b0" "\<not> is_lead3 b0" "is_lead4 b0"
    | (bad) "\<not> is_ascii b0" "\<not> is_lead2 b0" "\<not> is_lead3 b0" "\<not> is_lead4 b0"
    by blast
  then show ?thesis
  proof cases
    case one
    with assms obtain t' where t': "utf8_decode bs = Some t'" "t = unat b0 # t'"
      by auto
    have all: "\<forall>s. utf8_decode ([b0] @ s) = map_option ((#) (unat b0)) (utf8_decode s)"
      using one by simp
    have "([b0] = [newline] \<and> unat b0 = LF) \<or> (newline \<notin> set [b0] \<and> unat b0 \<noteq> LF)"
      by (auto simp: ascii_LF_iff)
    with t' all show ?thesis
      by (intro exI [of _ "[b0]"] exI [of _ bs] exI [of _ "unat b0"] exI [of _ t']) simp
  next
    case two
    with assms obtain b1 r where bs: "bs = b1 # r" and c1: "is_cont b1"
      by (auto split: list.splits if_splits)
    let ?cp = "(unat b0 - 0xC0) * 64 + cont_bits b1"
    from assms two bs c1 obtain t' where t': "utf8_decode r = Some t'" "t = ?cp # t'"
      by auto
    have all: "\<forall>s. utf8_decode ([b0, b1] @ s) = map_option ((#) ?cp) (utf8_decode s)"
      using two c1 by simp
    have "newline \<notin> set [b0, b1] \<and> ?cp \<noteq> LF"
      using two c1 is_cont_not_newline [of b1] cp2_not_LF [of b0] lead_not_newline [of b0]
      by auto
    with t' all bs show ?thesis
      by (intro exI [of _ "[b0, b1]"] exI [of _ r] exI [of _ ?cp] exI [of _ t']) simp
  next
    case three
    with assms obtain b1 b2 r where bs: "bs = b1 # b2 # r"
      and c: "second_ok3 b0 b1" "is_cont b2"
      by (auto split: list.splits if_splits)
    let ?cp = "(unat b0 - 0xE0) * 4096 + cont_bits b1 * 64 + cont_bits b2"
    from assms three bs c obtain t' where t': "utf8_decode r = Some t'" "t = ?cp # t'"
      by auto
    have all: "\<forall>s. utf8_decode ([b0, b1, b2] @ s) = map_option ((#) ?cp) (utf8_decode s)"
      using three c by simp
    have "newline \<notin> set [b0, b1, b2] \<and> ?cp \<noteq> LF"
      using three c is_cont_not_newline [of b2] second_ok3_not_newline [of b0 b1]
        cp3_not_LF [of b0 b1] lead_not_newline [of b0]
      by auto
    with t' all bs show ?thesis
      by (intro exI [of _ "[b0, b1, b2]"] exI [of _ r] exI [of _ ?cp] exI [of _ t']) simp
  next
    case four
    with assms obtain b1 b2 b3 r where bs: "bs = b1 # b2 # b3 # r"
      and c: "second_ok4 b0 b1" "is_cont b2" "is_cont b3"
      by (auto split: list.splits if_splits)
    let ?cp = "(unat b0 - 0xF0) * 262144 + cont_bits b1 * 4096 + cont_bits b2 * 64 + cont_bits b3"
    from assms four bs c obtain t' where t': "utf8_decode r = Some t'" "t = ?cp # t'"
      by auto
    have all: "\<forall>s. utf8_decode ([b0, b1, b2, b3] @ s) = map_option ((#) ?cp) (utf8_decode s)"
      using four c by simp
    have "newline \<notin> set [b0, b1, b2, b3] \<and> ?cp \<noteq> LF"
      using four c is_cont_not_newline [of b2] is_cont_not_newline [of b3]
        second_ok4_not_newline [of b0 b1] lead_not_newline [of b0]
        cp4_not_LF [of b0 b1 "cont_bits b2 * 64 + cont_bits b3"]
      by (auto simp: add.assoc)
    with t' all bs show ?thesis
      by (intro exI [of _ "[b0, b1, b2, b3]"] exI [of _ r] exI [of _ ?cp] exI [of _ t']) simp
  next
    case bad
    with assms show ?thesis by simp
  qed
qed

lemma split_sep_free_prefix:
  assumes "x \<notin> set pre"
  shows "split_sep (pre @ ys) x = (pre @ hd (split_sep ys x)) # tl (split_sep ys x)"
  using split_sep_append [of pre ys x] split_sep_no_sep [OF assms] by simp

text \<open>Decoding commutes with splitting at line terminators.\<close>

lemma utf8_decode_split:
  "utf8_decode bs = Some t \<Longrightarrow>
     map utf8_decode (split_sep bs newline) = map Some (split_sep t LF)"
proof (induction "length bs" arbitrary: bs t rule: less_induct)
  case less
  show ?case
  proof (cases bs)
    case Nil
    with less.prems show ?thesis by simp
  next
    case (Cons b0 bs')
    with less.prems utf8_decode_first [of b0 bs' t]
    obtain pre r cp t' where parts: "bs = pre @ r" "pre \<noteq> []" "utf8_decode r = Some t'"
        "t = cp # t'"
      and pre: "\<And>s. utf8_decode (pre @ s) = map_option ((#) cp) (utf8_decode s)"
      and kind: "(pre = [newline] \<and> cp = LF) \<or> (newline \<notin> set pre \<and> cp \<noteq> LF)"
      by blast
    from parts have "length r < length bs" by simp
    from less.hyps [OF this parts(3)]
    have IH: "map utf8_decode (split_sep r newline) = map Some (split_sep t' LF)" .
    from kind show ?thesis
    proof
      assume "pre = [newline] \<and> cp = LF"
      with parts IH show ?thesis by simp
    next
      assume free: "newline \<notin> set pre \<and> cp \<noteq> LF"
      obtain s ss where S: "split_sep r newline = s # ss"
        by (cases "split_sep r newline") auto
      obtain u us where U: "split_sep t' LF = u # us"
        by (cases "split_sep t' LF") auto
      from IH S U have su: "utf8_decode s = Some u" "map utf8_decode ss = map Some us"
        by simp_all
      have "split_sep bs newline = (pre @ s) # ss"
        using free parts(1) S by (simp add: split_sep_free_prefix)
      moreover have "split_sep t LF = (cp # u) # us"
        using free parts(4) U by simp
      ultimately show ?thesis using su pre [of s] by simp
    qed
  qed
qed

lemma utf8_decode_spans:
  assumes "utf8_decode bs = Some t" "s \<in> set (split_sep bs newline)"
  shows "\<exists>u. utf8_decode s = Some u"
proof -
  from assms(2) have "utf8_decode s \<in> set (map utf8_decode (split_sep bs newline))"
    by simp
  then show ?thesis unfolding utf8_decode_split [OF assms(1)] by auto
qed

section \<open>The scan of a file whose spans decode\<close>

text \<open>
  When every span behind the first terminator decodes, the inner loop consumes them all,
  last span first, and leaves the first span in the buffer.
\<close>

lemma extract_lines_spans:
  "\<forall>s \<in> set (tl (split_sep buf newline)). utf8_decode s \<noteq> None \<Longrightarrow>
     extract_lines buf ls =
       (hd (split_sep buf newline),
        ls @ concat (map (\<lambda>s. emitted (the (utf8_decode s))) (rev (tl (split_sep buf newline)))))"
proof (induction "length buf" arbitrary: buf ls rule: less_induct)
  case less
  show ?case
  proof (cases "rfind buf newline")
    case None
    then have "split_sep buf newline = [buf]"
      by (simp add: rfind_None split_sep_no_sep)
    with None show ?thesis by (simp add: extract_lines.simps [of buf])
  next
    case (Some i)
    let ?line_bytes = "drop (Suc i) buf"
    from rfind_Some [OF Some] have i: "i < length buf"
      and buf: "buf = take i buf @ newline # ?line_bytes"
      and free: "newline \<notin> set ?line_bytes"
      by simp_all
    have split: "split_sep buf newline = split_sep (take i buf) newline @ [?line_bytes]"
      using split_sep_append_sep [of "take i buf" newline ?line_bytes]
        split_sep_no_sep [OF free] buf by simp
    then have tl: "tl (split_sep buf newline) = tl (split_sep (take i buf) newline) @ [?line_bytes]"
      by simp
    from less.prems tl obtain line where line: "utf8_decode ?line_bytes = Some line"
      by auto
    have rest: "\<forall>s \<in> set (tl (split_sep (take i buf) newline)). utf8_decode s \<noteq> None"
      using less.prems tl by simp
    have "length (take i buf) < length buf" using i by simp
    note IH = less.hyps [OF this rest]
    have "extract_lines buf ls = extract_lines (take i buf) (ls @ emitted line)"
      using Some line i
      by (simp add: extract_lines.simps [of buf] emitted_def min_def)
    also note IH
    finally show ?thesis using split tl line by simp
  qed
qed

lemma scan_spans:
  assumes c: "1 \<le> c"
  shows "p \<le> length F \<Longrightarrow> newline \<notin> set buf \<Longrightarrow>
     \<forall>s \<in> set (tl (split_sep (take p F @ buf) newline)). utf8_decode s \<noteq> None \<Longrightarrow>
     \<forall>q \<in> set bad. p \<le> q \<Longrightarrow>
     scan (F, bad) c p buf ls =
       Some (Inr (hd (split_sep (take p F @ buf) newline),
                  ls @ concat (map (\<lambda>s. emitted (the (utf8_decode s)))
                                (rev (tl (split_sep (take p F @ buf) newline))))))"
proof (induction p arbitrary: buf ls rule: less_induct)
  case (less p)
  let ?E = "\<lambda>s. emitted (the (utf8_decode s))"
  note healthy = less.prems(4)
  show ?case
  proof (cases "p = 0")
    case True
    with less.prems show ?thesis
      by (simp add: scan.simps [of _ _ 0] split_sep_no_sep)
  next
    case False
    define k where "k = min c p"
    define p' where "p' = p - k"
    define chunk where "chunk = take k (drop p' F)"
    from False c have k: "0 < k" "k \<le> p" and p': "p' < p" "p' + k = p"
      by (auto simp: k_def p'_def)
    have read: "seek_read (F, bad) p' k = Inr chunk"
      using healthy p' by (auto simp: seek_read_def chunk_def)
    have take: "take p F = take p' F @ chunk"
      using p'(2) by (simp add: chunk_def take_add [symmetric])
    let ?T = "chunk @ buf"
    let ?W = "take p F @ buf"
    have W: "?W = take p' F @ ?T" by (simp add: take)
    define buf' where "buf' = hd (split_sep ?T newline)"
    define rest where "rest = tl (split_sep ?T newline)"
    have T: "split_sep ?T newline = buf' # rest"
      by (simp add: buf'_def rest_def)
    have "set rest \<subseteq> set (tl (split_sep ?W newline))"
      unfolding W rest_def by (rule split_sep_tl_subset)
    with less.prems(3) have "\<forall>s \<in> set (tl (split_sep ?T newline)). utf8_decode s \<noteq> None"
      by (auto simp: rest_def)
    from extract_lines_spans [OF this, of ls]
    have inner: "extract_lines ?T ls = (buf', ls @ concat (map ?E (rev rest)))"
      by (simp add: buf'_def rest_def)
    have free: "newline \<notin> set buf'"
      by (rule split_sep_span_free [of _ ?T]) (simp add: T)
    have split: "split_sep ?W newline = split_sep (take p' F @ buf') newline @ rest"
      unfolding W by (rule split_sep_prepend [OF T])
    then have tl: "tl (split_sep ?W newline) = tl (split_sep (take p' F @ buf') newline) @ rest"
      and hd: "hd (split_sep ?W newline) = hd (split_sep (take p' F @ buf') newline)"
      by simp_all
    have dec: "\<forall>s \<in> set (tl (split_sep (take p' F @ buf') newline)). utf8_decode s \<noteq> None"
      using less.prems(3) tl by simp
    have le: "p' \<le> length F" using p' less.prems(1) by simp
    have healthy': "\<forall>q \<in> set bad. p' \<le> q" using healthy p' by auto
    have "scan (F, bad) c p buf ls = scan (F, bad) c p' buf' (ls @ concat (map ?E (rev rest)))"
      using False read inner
      by (subst scan.simps) (simp add: k_def [symmetric] p'_def [symmetric])
    also have "\<dots> = Some (Inr (hd (split_sep (take p' F @ buf') newline),
        (ls @ concat (map ?E (rev rest))) @
          concat (map ?E (rev (tl (split_sep (take p' F @ buf') newline))))))"
      by (rule less.IH [OF p'(1) le free dec healthy'])
    finally show ?thesis by (simp add: hd tl)
  qed
qed

text \<open>The result for a healthy file all of whose spans decode.\<close>

lemma reverse_lines_chunked_spans:
  assumes c: "1 \<le> c"
    and dec: "\<forall>s \<in> set (split_sep F newline). utf8_decode s \<noteq> None"
  shows "reverse_lines_chunked (RegularFile F []) c =
           Some \<lparr>returned = concat (map (\<lambda>s. emitted (the (utf8_decode s)))
                                  (rev (split_sep F newline))),
                 lines_attr = concat (map (\<lambda>s. emitted (the (utf8_decode s)))
                                  (rev (split_sep F newline))),
                 printed = []\<rparr>"
proof -
  let ?E = "\<lambda>s. emitted (the (utf8_decode s))"
  let ?S = "split_sep F newline"
  have S: "?S = hd ?S # tl ?S" by simp
  have "\<forall>s \<in> set (tl (split_sep (take (length F) F @ []) newline)). utf8_decode s \<noteq> None"
    using dec by (auto dest: list.set_sel(2) [rotated])
  from scan_spans [OF c _ _ this, of "[]" "[]"]
  have scan: "scan (F, []) c (length F) [] [] = Some (Inr (hd ?S, concat (map ?E (rev (tl ?S)))))"
    by simp
  from dec obtain line where line: "utf8_decode (hd ?S) = Some line"
    using list.set_sel(1) [of ?S] by fastforce
  have flush: "flush (hd ?S) ls = \<lparr>returned = ls @ ?E (hd ?S), lines_attr = ls @ ?E (hd ?S),
      printed = []\<rparr>" for ls
  proof (cases "hd ?S = []")
    case True
    then show ?thesis by (simp add: flush_def emitted_def)
  next
    case False
    with line have "line \<noteq> []" using utf8_decode_Nil_iff [of "hd ?S"] by auto
    with False line show ?thesis by (simp add: flush_def emitted_def)
  qed
  have "concat (map ?E (rev ?S)) = concat (map ?E (rev (tl ?S))) @ ?E (hd ?S)"
    by (cases ?S) simp_all
  then show ?thesis
    by (simp add: reverse_lines_chunked_def scan flush)
qed

lemma emitted_spans_text:
  assumes "utf8_decode F = Some t"
  shows "map (\<lambda>s. emitted (the (utf8_decode s))) (split_sep F newline)
           = map emitted (split_sep t LF)"
proof -
  have "map (\<lambda>s. emitted (the (utf8_decode s))) (split_sep F newline)
      = map (\<lambda>d. emitted (the d)) (map utf8_decode (split_sep F newline))"
    by simp
  also have "\<dots> = map emitted (split_sep t LF)"
    unfolding utf8_decode_split [OF assms] by simp
  finally show ?thesis .
qed

lemma concat_emitted: "concat (map emitted ls) =
    map (\<lambda>line. rstrip line CR @ [LF]) (filter (\<lambda>line. line \<noteq> []) ls)"
  by (induction ls) (auto simp: emitted_def)

text \<open>The result for a healthy UTF-8 file, in terms of its text.\<close>

lemma reverse_lines_chunked_valid:
  assumes "utf8_decode F = Some t" "1 \<le> c"
  shows "reverse_lines_chunked (RegularFile F []) c =
           Some \<lparr>returned = rev (map (\<lambda>line. rstrip line CR @ [LF])
                                   (filter (\<lambda>line. line \<noteq> []) (split_sep t LF))),
                 lines_attr = rev (map (\<lambda>line. rstrip line CR @ [LF])
                                   (filter (\<lambda>line. line \<noteq> []) (split_sep t LF))),
                 printed = []\<rparr>"
proof -
  have dec: "\<forall>s \<in> set (split_sep F newline). utf8_decode s \<noteq> None"
    using utf8_decode_spans [OF assms(1)] by auto
  have "concat (map (\<lambda>s. emitted (the (utf8_decode s))) (rev (split_sep F newline)))
      = concat (map emitted (rev (split_sep t LF)))"
    by (simp add: rev_map [symmetric] emitted_spans_text [OF assms(1)])
  also have "\<dots> = rev (map (\<lambda>line. rstrip line CR @ [LF])
                        (filter (\<lambda>line. line \<noteq> []) (split_sep t LF)))"
    by (simp add: concat_emitted rev_map rev_filter)
  finally show ?thesis
    using reverse_lines_chunked_spans [OF assms(2) dec] by simp
qed

lemma nonempty_spans_text:
  "map utf8_decode A = map Some B \<Longrightarrow>
     length (filter (\<lambda>s. s \<noteq> []) A) = length (filter (\<lambda>line. line \<noteq> []) B)"
proof (induction A arbitrary: B)
  case Nil
  then show ?case by simp
next
  case (Cons a A)
  then obtain b B' where B: "B = b # B'" "utf8_decode a = Some b" "map utf8_decode A = map Some B'"
    by (cases B) auto
  from B(2) have "a = [] \<longleftrightarrow> b = []"
    using utf8_decode_Nil_iff [of a] by auto
  with Cons.IH [OF B(3)] B(1) show ?case by simp
qed

lemma set_rstrip: "set (rstrip line c) \<subseteq> set line"
  unfolding rstrip_def using set_dropWhileD [of _ "\<lambda>x. x = c" "rev line"] by auto

lemma last_rstrip: "rstrip line c = [] \<or> last (rstrip line c) \<noteq> c"
proof (cases "dropWhile (\<lambda>x. x = c) (rev line)")
  case Nil
  then show ?thesis by (simp add: rstrip_def)
next
  case (Cons y ys)
  then have "y \<noteq> c" using hd_dropWhile [of "\<lambda>x. x = c" "rev line"] by auto
  with Cons show ?thesis by (simp add: rstrip_def)
qed


section \<open>The two loops and the step relation\<close>

lemma reaches_step:
  "reaches f c cfg \<Longrightarrow> step f c cfg cfg' \<Longrightarrow> reaches f c cfg'"
  unfolding reaches_def by (rule rtranclp.rtrancl_into_rtrancl)

text \<open>The inner loop runs along the step relation, up to the next head of the outer loop.\<close>

lemma extract_lines_reaches:
  "reaches f c (InnerHead, p, buf, ls) \<Longrightarrow> extract_lines buf ls = (buf', ls') \<Longrightarrow>
     reaches f c (OuterHead, p, buf', ls')"
proof (induction "length buf" arbitrary: buf ls rule: less_induct)
  case less
  show ?case
  proof (cases "rfind buf newline")
    case None
    with less.prems(2) have "buf' = buf" "ls' = ls"
      by (simp_all add: extract_lines.simps [of buf])
    with reaches_step [OF less.prems(1) step.no_newline [OF None]] show ?thesis by simp
  next
    case (Some i)
    show ?thesis
    proof (cases "utf8_decode (drop (i + 1) buf)")
      case None
      with Some less.prems(2) have "buf' = drop (i + 1) buf @ take (i + 1) buf" "ls' = ls"
        by (simp_all add: extract_lines.simps [of buf])
      with reaches_step [OF less.prems(1) step.remerged [OF Some None]] show ?thesis by simp
    next
      case (Some line)
      let ?buf1 = "take i (take (i + 1) buf)"
      let ?ls1 = "if length line > 0 then ls @ [rstrip line CR @ [LF]] else ls"
      from rfind_Some [OF \<open>rfind buf newline = Some i\<close>] have "length ?buf1 < length buf"
        by simp
      moreover have "reaches f c (InnerHead, p, ?buf1, ?ls1)"
        by (rule reaches_step [OF less.prems(1) step.accepted [OF \<open>rfind buf newline = Some i\<close> Some]])
      moreover have "extract_lines ?buf1 ?ls1 = (buf', ls')"
        using less.prems(2) \<open>rfind buf newline = Some i\<close> Some
        by (simp add: extract_lines.simps [of buf])
      ultimately show ?thesis by (rule less.hyps)
    qed
  qed
qed

text \<open>The outer loop ends, when it ends normally, in a configuration of the step relation.\<close>

lemma scan_reaches:
  assumes "scan f c p buf ls = Some r"
  shows "reaches f c (OuterHead, p, buf, ls) \<longrightarrow>
           (\<forall>buf' ls'. r = Inr (buf', ls') \<longrightarrow> reaches f c (OuterHead, 0, buf', ls'))"
  using assms
proof (rule scan.raw_induct [rotated], goal_cases)
  case (1 scan' f c p buf ls r)
  note body = 1
  show ?case
  proof (cases "p = 0")
    case True
    with body(2) show ?thesis by auto
  next
    case False
    let ?k = "min c p"
    show ?thesis
    proof (cases "seek_read f (p - ?k) ?k")
      case (Inl e')
      with body(2) False show ?thesis by auto
    next
      case (Inr chunk)
      obtain buf1 ls1 where ex: "extract_lines (chunk @ buf) ls = (buf1, ls1)"
        by (cases "extract_lines (chunk @ buf) ls")
      from body(2) False Inr ex
      have next_call: "scan' f c (p - ?k) buf1 ls1 = Some r" by simp
      show ?thesis
      proof
        assume start: "reaches f c (OuterHead, p, buf, ls)"
        have "step f c (OuterHead, p, buf, ls) (InnerHead, p - ?k, chunk @ buf, ls)"
          using False Inr by (intro step.fetch) simp_all
        from extract_lines_reaches [OF reaches_step [OF start this] ex]
        have "reaches f c (OuterHead, p - ?k, buf1, ls1)" .
        with body(1) [OF next_call]
        show "\<forall>buf' ls'. r = Inr (buf', ls') \<longrightarrow> reaches f c (OuterHead, 0, buf', ls')"
          by simp
      qed
    qed
  qed
qed

lemma reaches_initial: "reaches (content, bad) c (OuterHead, length content, [], [])"
  by (simp add: reaches_def)

text \<open>With a chunk size of at least 1 the outer loop returns.\<close>

lemma scan_returns:
  assumes "1 \<le> c"
  shows "\<exists>r. scan f c p buf ls = Some r"
proof (induction p arbitrary: buf ls rule: less_induct)
  case (less p)
  show ?case
  proof (cases "p = 0")
    case True
    then show ?thesis by (simp add: scan.simps [of _ _ 0])
  next
    case False
    let ?k = "min c p"
    show ?thesis
    proof (cases "seek_read f (p - ?k) ?k")
      case (Inl e)
      with False show ?thesis by (subst scan.simps) simp
    next
      case (Inr chunk)
      obtain buf1 ls1 where ex: "extract_lines (chunk @ buf) ls = (buf1, ls1)"
        by (cases "extract_lines (chunk @ buf) ls")
      from False assms have "p - ?k < p" by auto
      from less.IH [OF this, of buf1 ls1] obtain r
        where "scan f c (p - ?k) buf1 ls1 = Some r" ..
      with False Inr ex show ?thesis by (subst scan.simps) simp
    qed
  qed
qed

lemma reverse_lines_chunked_returns:
  assumes "1 \<le> c"
  shows "\<exists>r. reverse_lines_chunked target c = Some r"
proof (cases "open_rb target")
  case (Inl e)
  then show ?thesis by (simp add: reverse_lines_chunked_def)
next
  case (Inr f)
  from scan_returns [OF assms, of f "length (fst f)" "[]" "[]"] obtain r
    where "scan f c (length (fst f)) [] [] = Some r" ..
  with Inr show ?thesis
    by (cases r) (auto simp: reverse_lines_chunked_def)
qed

text \<open>The position along the step relation.\<close>

lemma step_position:
  "step f c (loc, p, buf, ls) (loc', p', buf', ls') \<Longrightarrow> p' \<le> p"
  by (auto elim: step.cases)

lemma reaches_position:
  "reaches f c cfg \<Longrightarrow> fst (snd cfg) \<le> length (fst f)"
  unfolding reaches_def
proof (induction rule: rtranclp_induct)
  case base
  then show ?case by simp
next
  case (step y z)
  then show ?case by (auto elim!: step.cases)
qed

lemma step_fetch:
  assumes "step (content, bad) c (OuterHead, p, buf, ls) (loc', p', buf', ls')"
    and "1 \<le> c" "p \<le> length content"
  shows "0 < p \<and> loc' = InnerHead \<and> p' = p - min c p \<and> p' < p \<and> ls' = ls \<and>
         buf' = take (min c p) (drop p' content) @ buf \<and>
         length (take (min c p) (drop p' content)) = min c p"
  using assms by (auto elim!: step.cases simp: seek_read_def split: if_splits)

section \<open>The buffer of a UTF-8-valid file\<close>



lemma rfind_split:
  assumes "rfind xs x = Some i"
  shows "take i xs @ x # drop (Suc i) xs = xs"
  using rfind_Some [OF assms] by (intro sym [of xs]) blast

lemma slice_invI:
  assumes "content = xs @ buf @ ys" "length xs = p" "ys = [] \<or> hd ys = newline"
    "case loc of OuterHead \<Rightarrow> newline \<notin> set buf | InnerHead \<Rightarrow> newline \<notin> set (drop c buf)"
  shows "slice_inv content c (loc, p, buf, ls)"
  unfolding slice_inv_def using assms by blast

lemma slice_invE:
  assumes "slice_inv content c (loc, p, buf, ls)"
  obtains xs ys where "content = xs @ buf @ ys" "length xs = p" "ys = [] \<or> hd ys = newline"
    "case loc of OuterHead \<Rightarrow> newline \<notin> set buf | InnerHead \<Rightarrow> newline \<notin> set (drop c buf)"
  using assms unfolding slice_inv_def by blast

lemma slice_inv_step:
  assumes valid: "utf8_decode content = Some t"
    and inv: "slice_inv content c cfg"
    and step: "step (content, bad) c cfg cfg'"
  shows "slice_inv content c cfg'"
  using step
proof (cases rule: step.cases)
  case (fetch p k chunk buf ls)
  from inv [unfolded fetch(1)] obtain xs ys where parts: "content = xs @ buf @ ys"
      "length xs = p" "ys = [] \<or> hd ys = newline" and free: "newline \<notin> set buf"
    by (rule slice_invE) simp
  have k: "k \<le> p" "k \<le> c" using fetch(4) by simp_all
  from fetch(5) have "chunk = take k (drop (p - k) content)"
    by (auto simp: seek_read_def split: if_splits)
  also have "\<dots> = drop (p - k) xs"
    using parts(2) k unfolding parts(1) by simp
  finally have chunk: "chunk = drop (p - k) xs" .
  have "xs = take (p - k) xs @ chunk"
    unfolding chunk by simp
  then have a: "content = take (p - k) xs @ (chunk @ buf) @ ys"
    unfolding parts(1) by (metis append.assoc)
  have b: "length (take (p - k) xs) = p - k"
    using parts(2) by simp
  have d: "newline \<notin> set (drop c (chunk @ buf))"
  proof -
    have "length chunk \<le> c" using k parts(2) by (simp add: chunk)
    then have "drop c (chunk @ buf) = drop (c - length chunk) buf" by simp
    with free show ?thesis by (auto dest: in_set_dropD)
  qed
  show ?thesis
    unfolding fetch(2) by (rule slice_invI [OF a b parts(3)]) (use d in simp)
next
  case (no_newline buf p ls)
  from inv [unfolded no_newline(1)] obtain xs ys where parts: "content = xs @ buf @ ys"
      "length xs = p" "ys = [] \<or> hd ys = newline"
    by (rule slice_invE)
  have d: "newline \<notin> set buf" using no_newline(3) by (simp add: rfind_None)
  show ?thesis
    unfolding no_newline(2) by (rule slice_invI [OF parts]) (use d in simp)
next
  case (accepted buf i line p ls)
  from inv [unfolded accepted(1)] obtain xs ys where parts: "content = xs @ buf @ ys"
      "length xs = p" and free: "newline \<notin> set (drop c buf)"
    by (rule slice_invE) simp
  from rfind_Some [OF accepted(3)] have i: "i < length buf" by simp
  note buf = rfind_split [OF accepted(3)]
  have "content = xs @ (take i buf @ newline # drop (Suc i) buf) @ ys"
    unfolding buf by (rule parts(1))
  then have a: "content = xs @ take i buf @ (newline # drop (Suc i) buf @ ys)"
    by simp
  have e: "newline # drop (Suc i) buf @ ys = [] \<or> hd (newline # drop (Suc i) buf @ ys) = newline"
    by simp
  have d: "newline \<notin> set (drop c (take i buf))"
  proof
    assume "newline \<in> set (drop c (take i buf))"
    then have "newline \<in> set (take (i - c) (drop c buf))" by (simp add: drop_take)
    then have "newline \<in> set (drop c buf)" by (rule in_set_takeD)
    with free show False ..
  qed
  have "take i (take (i + 1) buf) = take i buf" by (simp add: min_def)
  then show ?thesis
    unfolding accepted(2) by (simp only:) (rule slice_invI [OF a parts(2) e], use d in simp)
next
  case (remerged buf i p ls)
  from inv [unfolded remerged(1)] obtain xs ys where parts: "content = xs @ buf @ ys"
      "ys = [] \<or> hd ys = newline"
    by (rule slice_invE)
  from rfind_Some [OF remerged(3)] have free: "newline \<notin> set (drop (Suc i) buf)" by simp
  note buf = rfind_split [OF remerged(3)]
  have "content = xs @ (take i buf @ newline # drop (Suc i) buf) @ ys"
    unfolding buf by (rule parts(1))
  then have "content = (xs @ take i buf) @ newline # drop (Suc i) buf @ ys"
    by simp
  with split_sep_span_member [OF free parts(2), of "xs @ take i buf"]
  have "drop (Suc i) buf \<in> set (split_sep content newline)" by simp
  from utf8_decode_spans [OF valid this] remerged(4) show ?thesis by simp
qed

lemma slice_inv_reaches:
  assumes "utf8_decode content = Some t" "reaches (content, bad) c cfg"
  shows "slice_inv content c cfg"
  using assms(2) unfolding reaches_def
proof (induction rule: rtranclp_induct)
  case base
  show ?case by (rule slice_invI [of _ content _ "[]"]) simp_all
next
  case (step y z)
  from slice_inv_step [OF assms(1) step.IH step.hyps(2)] show ?case .
qed

text \<open>On UTF-8-valid files the result does not depend on the chunk size.\<close>

lemma valid_chunk_size_independent:
  assumes "utf8_decode F = Some t" "1 \<le> c" "1 \<le> c'"
  shows "reverse_lines_chunked (RegularFile F []) c = reverse_lines_chunked (RegularFile F []) c'"
  using reverse_lines_chunked_valid [OF assms(1,2)] reverse_lines_chunked_valid [OF assms(1,3)]
  by simp

text \<open>On UTF-8-valid files the buffer is, at every point, a slice of the file.\<close>

lemma valid_buffer_is_slice:
  assumes "utf8_decode content = Some t" "reaches (content, bad) c (loc, p, buf, ls)"
  shows "\<exists>boundary. p \<le> boundary \<and> boundary \<le> length content \<and>
           buf = take (boundary - p) (drop p content)"
proof -
  from slice_inv_reaches [OF assms] obtain xs ys
    where "content = xs @ buf @ ys" "length xs = p"
    by (rule slice_invE)
  then show ?thesis
    by (intro exI [of _ "p + length buf"]) simp
qed

section \<open>The run of the loops along the step relation\<close>

text \<open>A step does not change what the loops compute from there on.\<close>

lemma resume_step:
  assumes "step f c cfg cfg'"
  shows "resume f c cfg = resume f c cfg'"
  using assms
proof (cases rule: step.cases)
  case (fetch p k chunk buf ls)
  then show ?thesis
    by (simp add: resume_def scan.simps [of f c p buf ls])
next
  case (no_newline buf p ls)
  then show ?thesis
    by (simp add: resume_def extract_lines.simps [of buf])
next
  case (accepted buf i line p ls)
  then show ?thesis
    by (simp add: resume_def extract_lines.simps [of buf])
next
  case (remerged buf i p ls)
  have "extract_lines buf ls = (drop (i + 1) buf @ take (i + 1) buf, ls)"
    using remerged(3,4) by (simp add: extract_lines.simps [of buf])
  then show ?thesis
    unfolding remerged(1,2) by (simp add: resume_def)
qed


text \<open>So every configuration that is reached lies on the run of the outer loop.\<close>

lemma resume_reaches:
  assumes "reaches f c cfg"
  shows "resume f c cfg = scan f c (length (fst f)) [] []"
  using assms unfolding reaches_def
proof (induction rule: rtranclp_induct)
  case base
  show ?case by (simp add: resume_def)
next
  case (step y z)
  from resume_step [OF step.hyps(2)] step.IH show ?case by simp
qed



text \<open>Without failing offsets the outer loop does not raise.\<close>

lemma scan_healthy:
  assumes "scan f c p buf ls = Some r"
  shows "snd f = [] \<longrightarrow> (\<exists>buf' ls'. r = Inr (buf', ls'))"
  using assms
proof (rule scan.raw_induct [rotated], goal_cases)
  case (1 scan' f c p buf ls r)
  note body = 1
  show ?case
  proof
    assume h: "snd f = []"
    show "\<exists>buf' ls'. r = Inr (buf', ls')"
    proof (cases "p = 0")
      case True
      with body(2) show ?thesis by auto
    next
      case False
      let ?k = "min c p"
      from h obtain chunk where rd: "seek_read f (p - ?k) ?k = Inr chunk"
        by (simp add: seek_read_def)
      obtain buf1 ls1 where ex: "extract_lines (chunk @ buf) ls = (buf1, ls1)"
        by (cases "extract_lines (chunk @ buf) ls")
      from body(2) False rd ex
      have "scan' f c (p - ?k) buf1 ls1 = Some r" by simp
      from body(1) [OF this] h show ?thesis by simp
    qed
  qed
qed


section \<open>The part of a file behind a terminator\<close>






section \<open>The claims\<close>

text \<open>
  C1 (as stated, refuted): reversing and concatenating the returned list does not reproduce
  the forward lines of the file \<open>a\n\nb\n\<close>: the empty line between the two
  terminators is missing.
\<close>

theorem C1_round_trip_counterexample:
  "utf8_decode [0x61, 0x0A, 0x0A, 0x62, 0x0A] = Some [97, 10, 10, 98, 10] \<and>
   reverse_lines_chunked (RegularFile [0x61, 0x0A, 0x0A, 0x62, 0x0A] []) 8 =
     Some \<lparr>returned = [[98, 10], [97, 10]], lines_attr = [[98, 10], [97, 10]], printed = []\<rparr> \<and>
   concat (rev [[98, 10], [97, 10]]) \<noteq> concat (forward_lines [97, 10, 10, 98, 10])"
  by code_simp

text \<open>
  C1 (amended): for every UTF-8-valid file and every chunk size of at least 1, the returned
  list, reversed, is the forward sequence of the non-empty lines of the file's text (the
  spans between \<open>\n\<close> that hold at least one character), each with all its trailing
  carriage returns stripped and one \<open>\n\<close> appended; so the returned list holds these
  lines in strict reverse physical order.
\<close>

theorem C1_reverse_order_of_nonempty_lines:
  assumes "utf8_decode F = Some t" "1 \<le> c"
  shows "\<exists>r. reverse_lines_chunked (RegularFile F []) c = Some r \<and>
           rev (returned r) =
             map (\<lambda>line. rstrip line CR @ [LF])
               (filter (\<lambda>line. line \<noteq> []) (split_sep t LF))"
  using reverse_lines_chunked_valid [OF assms] by simp

theorem C1_reverse_order_of_nonempty_lines_witness:
  "utf8_decode [0x61, 0x0D, 0x0A, 0x0A, 0xC3, 0xA9] = Some [97, 13, 10, 10, 233] \<and>
   (1 :: nat) \<le> 2 \<and>
   (\<exists>r. reverse_lines_chunked (RegularFile [0x61, 0x0D, 0x0A, 0x0A, 0xC3, 0xA9] []) 2 = Some r \<and>
        rev (returned r) = [[97, 10], [233, 10]])"
proof -
  have d: "utf8_decode [0x61, 0x0D, 0x0A, 0x0A, 0xC3, 0xA9] = Some [97, 13, 10, 10, 233]"
    by code_simp
  have s: "map (\<lambda>line. rstrip line CR @ [LF])
             (filter (\<lambda>line. line \<noteq> []) (split_sep [97, 13, 10, 10, 233] LF))
           = [[97, 10], [233, 10]]"
    by code_simp
  show ?thesis
    using C1_reverse_order_of_nonempty_lines [OF d, of 2] d unfolding s by simp
qed

text \<open>
  C2 (as stated, refuted): the file \<open>a\n\nb\<close> has an empty span between its two
  terminators, and neither terminator is the last byte of the file; no empty line is
  returned for it.
\<close>

theorem C2_empty_span_counterexample:
  "split_sep [0x61, 0x0A, 0x0A, 0x62] newline = [[0x61], [], [0x62]] \<and>
   reverse_lines_chunked (RegularFile [0x61, 0x0A, 0x0A, 0x62] []) 8 =
     Some \<lparr>returned = [[98, 10], [97, 10]], lines_attr = [[98, 10], [97, 10]], printed = []\<rparr> \<and>
   [LF] \<notin> set [[98, 10], [97, 10]]"
  by code_simp

text \<open>
  C2 (amended): for every UTF-8-valid file and every chunk size of at least 1, an empty
  byte span between line terminators (or between a terminator and either end of the
  file) yields no element of the output: the returned list has exactly one element for
  each non-empty span of the file.
\<close>

theorem C2_one_line_per_nonempty_span:
  assumes "utf8_decode F = Some t" "1 \<le> c"
  shows "\<exists>r. reverse_lines_chunked (RegularFile F []) c = Some r \<and>
           length (returned r) = length (filter (\<lambda>s. s \<noteq> []) (split_sep F newline))"
  using reverse_lines_chunked_valid [OF assms]
    nonempty_spans_text [OF utf8_decode_split [OF assms(1)]]
  by simp

theorem C2_one_line_per_nonempty_span_witness:
  "utf8_decode [0x61, 0x0A, 0x0A, 0x62] = Some [97, 10, 10, 98] \<and> (1 :: nat) \<le> 1 \<and>
   (\<exists>r. reverse_lines_chunked (RegularFile [0x61, 0x0A, 0x0A, 0x62] []) 1 = Some r \<and>
        length (returned r) = 2)"
proof -
  have d: "utf8_decode [0x61, 0x0A, 0x0A, 0x62] = Some [97, 10, 10, 98]"
    by code_simp
  have n: "length (filter (\<lambda>s. s \<noteq> []) (split_sep [0x61, 0x0A, 0x0A, 0x62] newline)) = 2"
    by code_simp
  show ?thesis
    using C2_one_line_per_nonempty_span [OF d, of 1] d unfolding n by simp
qed

text \<open>
  C3: the file of the three bytes \<open>A9 0A C3\<close> (not valid UTF-8) read with chunk size 3
  and with chunk size 1. With chunk size 3 the span \<open>C3\<close> fails to decode and is put in
  front of the buffer, which then decodes as a whole; with chunk size 1 it does not.
\<close>

theorem C3_chunk_size_dependence:
  "reverse_lines_chunked (RegularFile [0xA9, 0x0A, 0xC3] []) 3 =
     Some \<lparr>returned = [[233, 10, 10]], lines_attr = [[233, 10, 10]], printed = []\<rparr> \<and>
   reverse_lines_chunked (RegularFile [0xA9, 0x0A, 0xC3] []) 1 =
     Some \<lparr>returned = [], lines_attr = [], printed = [FinalBytesWarning]\<rparr>"
  by code_simp

text \<open>
  C4: the file of the three bytes \<open>A9 0A C3\<close> read with chunk size 3. The decode of
  the candidate span \<open>C3\<close> fails, and the re-merge leaves the buffer \<open>C3 A9 0A\<close>
  at the head of the outer loop: the bytes of the file in another order, which is not the
  slice of the file from the position to any boundary.
\<close>

theorem C4_remerge_reorders_buffer:
  "extract_lines [0xA9, 0x0A, 0xC3] [] = ([0xC3, 0xA9, 0x0A], []) \<and>
   reaches ([0xA9, 0x0A, 0xC3], []) 3 (OuterHead, 0, [0xC3, 0xA9, 0x0A], []) \<and>
   [0xC3, 0xA9, 0x0A] \<notin>
     set (map (\<lambda>boundary. take (boundary - 0) (drop 0 [0xA9, 0x0A, 0xC3 :: byte])) [0 ..< 4])"
proof -
  have e: "extract_lines [0xA9, 0x0A, 0xC3] [] = ([0xC3, 0xA9, 0x0A], [])"
    by code_simp
  have s: "scan ([0xA9, 0x0A, 0xC3], []) 3 (length [0xA9 :: byte, 0x0A, 0xC3]) [] []
             = Some (Inr ([0xC3, 0xA9, 0x0A], []))"
    by code_simp
  have r: "reaches ([0xA9, 0x0A, 0xC3], []) 3 (OuterHead, 0, [0xC3, 0xA9, 0x0A], [])"
    using scan_reaches [OF s] reaches_initial [of "[0xA9, 0x0A, 0xC3]" "[]" 3] by simp
  have n: "[0xC3, 0xA9, 0x0A] \<notin>
     set (map (\<lambda>boundary. take (boundary - 0) (drop 0 [0xA9, 0x0A, 0xC3 :: byte])) [0 ..< 4])"
    by code_simp
  from e r n show ?thesis by blast
qed

text \<open>
  C5 (as stated, refuted): the line \<open>a\r\r\<close> loses both carriage returns, not a
  single one.
\<close>

theorem C5_single_cr_counterexample:
  "reverse_lines_chunked (RegularFile [0x61, 0x0D, 0x0D, 0x0A] []) 8 =
     Some \<lparr>returned = [[97, 10]], lines_attr = [[97, 10]], printed = []\<rparr> \<and>
   [[97, 10]] \<noteq> [strip_one [97, 13, 13] CR @ [LF]]"
  by code_simp

text \<open>
  C5 (amended): every line appended to the output is a decoded span with all of its
  trailing carriage returns stripped and exactly one \<open>\n\<close> appended. For every
  UTF-8-valid file and every chunk size of at least 1, every element of the returned list
  is such a normalized non-empty line of the file: it ends with \<open>\n\<close>, holds no
  other \<open>\n\<close>, and no carriage return stands before the final \<open>\n\<close>; this
  includes the first physical line and a last line without terminator.
\<close>

theorem C5_lines_normalized:
  assumes "utf8_decode F = Some t" "1 \<le> c"
  shows "\<exists>r. reverse_lines_chunked (RegularFile F []) c = Some r \<and>
           (\<forall>e \<in> set (returned r).
              \<exists>line \<in> set (split_sep t LF).
                line \<noteq> [] \<and> e = rstrip line CR @ [LF] \<and> LF \<notin> set (rstrip line CR) \<and>
                (rstrip line CR = [] \<or> last (rstrip line CR) \<noteq> CR))"
proof -
  have "LF \<notin> set (rstrip line CR)" if "line \<in> set (split_sep t LF)" for line
    using split_sep_span_free [OF that] set_rstrip [of line CR] by auto
  then show ?thesis
    using reverse_lines_chunked_valid [OF assms] last_rstrip [of _ CR] by auto
qed

theorem C5_lines_normalized_witness:
  "utf8_decode [0x61, 0x0D, 0x0D, 0x0A, 0x62] = Some [97, 13, 13, 10, 98] \<and> (1 :: nat) \<le> 3 \<and>
   (\<exists>r. reverse_lines_chunked (RegularFile [0x61, 0x0D, 0x0D, 0x0A, 0x62] []) 3 = Some r \<and>
        (\<forall>e \<in> set (returned r).
           \<exists>line \<in> set (split_sep [97, 13, 13, 10, 98] LF).
             line \<noteq> [] \<and> e = rstrip line CR @ [LF] \<and> LF \<notin> set (rstrip line CR) \<and>
             (rstrip line CR = [] \<or> last (rstrip line CR) \<noteq> CR)))"
proof -
  have d: "utf8_decode [0x61, 0x0D, 0x0D, 0x0A, 0x62] = Some [97, 13, 13, 10, 98]"
    by code_simp
  show ?thesis
    using C5_lines_normalized [OF d, of 3] d by simp
qed

text \<open>
  C6: for every file (with any failing offsets) and every chunk size of at least 1, the
  outer loop returns, its run goes through every configuration that the steps reach, and
  when it ends without a failed read it ends at position 0. Along the run the position
  never exceeds the file's length and never grows. Each iteration of the loop, from a
  position \<open>p > 0\<close>, reads exactly the \<open>min chunk_size p\<close> bytes that end at \<open>p\<close>,
  so it does not reach before offset 0, and goes on at the position lowered by that many
  bytes, at least 1; at position 0 the loop stops. The whole operation returns.
\<close>

theorem C6_cursor_and_termination:
  assumes "1 \<le> c"
  shows "(\<exists>r. scan (content, bad) c (length content) [] [] = Some r \<and>
            (\<forall>cfg. reaches (content, bad) c cfg \<longrightarrow> resume (content, bad) c cfg = Some r) \<and>
            (\<forall>buf ls. r = Inr (buf, ls) \<longrightarrow> reaches (content, bad) c (OuterHead, 0, buf, ls)) \<and>
            (bad = [] \<longrightarrow> (\<exists>buf ls. r = Inr (buf, ls)))) \<and>
         (reaches (content, bad) c (loc, p, buf, ls) \<longrightarrow> p \<le> length content) \<and>
         (step (content, bad) c (loc, p, buf, ls) (loc', p', buf', ls') \<longrightarrow> p' \<le> p) \<and>
         (reaches (content, bad) c (OuterHead, p, buf, ls) \<and>
          step (content, bad) c (OuterHead, p, buf, ls) (loc', p', buf', ls') \<longrightarrow>
            0 < p \<and> min c p \<le> p \<and> p' = p - min c p \<and> p' < p \<and>
            buf' = take (min c p) (drop p' content) @ buf \<and>
            length (take (min c p) (drop p' content)) = min c p) \<and>
         (0 < p \<and> p \<le> length content \<and> p - min c p \<notin> set bad \<longrightarrow>
            min c p \<le> p \<and> p - min c p < p \<and>
            seek_read (content, bad) (p - min c p) (min c p)
              = Inr (take (min c p) (drop (p - min c p) content)) \<and>
            length (take (min c p) (drop (p - min c p) content)) = min c p \<and>
            scan (content, bad) c p buf ls =
              (case extract_lines (take (min c p) (drop (p - min c p) content) @ buf) ls of
                 (buf1, ls1) \<Rightarrow> scan (content, bad) c (p - min c p) buf1 ls1)) \<and>
         scan (content, bad) c 0 buf ls = Some (Inr (buf, ls)) \<and>
         (\<exists>r. reverse_lines_chunked (RegularFile content bad) c = Some r)"
proof (intro conjI impI)
  from scan_returns [OF assms, of "(content, bad)" "length content" "[]" "[]"]
  obtain r where r: "scan (content, bad) c (length content) [] [] = Some r" ..
  have h1: "\<forall>cfg. reaches (content, bad) c cfg \<longrightarrow> resume (content, bad) c cfg = Some r"
    using resume_reaches [of "(content, bad)" c] r by simp
  have h2: "\<forall>buf ls. r = Inr (buf, ls) \<longrightarrow> reaches (content, bad) c (OuterHead, 0, buf, ls)"
    using scan_reaches [OF r] reaches_initial [of content bad c] by simp
  have h3: "bad = [] \<longrightarrow> (\<exists>buf ls. r = Inr (buf, ls))"
    using scan_healthy [OF r] by simp
  from r h1 h2 h3
  have "scan (content, bad) c (length content) [] [] = Some r \<and>
      (\<forall>cfg. reaches (content, bad) c cfg \<longrightarrow> resume (content, bad) c cfg = Some r) \<and>
      (\<forall>buf ls. r = Inr (buf, ls) \<longrightarrow> reaches (content, bad) c (OuterHead, 0, buf, ls)) \<and>
      (bad = [] \<longrightarrow> (\<exists>buf ls. r = Inr (buf, ls)))"
    by (intro conjI)
  then show "\<exists>r. scan (content, bad) c (length content) [] [] = Some r \<and>
      (\<forall>cfg. reaches (content, bad) c cfg \<longrightarrow> resume (content, bad) c cfg = Some r) \<and>
      (\<forall>buf ls. r = Inr (buf, ls) \<longrightarrow> reaches (content, bad) c (OuterHead, 0, buf, ls)) \<and>
      (bad = [] \<longrightarrow> (\<exists>buf ls. r = Inr (buf, ls)))"
    by (rule exI)
next
  assume "reaches (content, bad) c (loc, p, buf, ls)"
  from reaches_position [OF this] show "p \<le> length content" by simp
next
  assume "step (content, bad) c (loc, p, buf, ls) (loc', p', buf', ls')"
  then show "p' \<le> p" by (rule step_position)
next
  show "\<exists>r. reverse_lines_chunked (RegularFile content bad) c = Some r"
    by (rule reverse_lines_chunked_returns [OF assms])
next
  show "scan (content, bad) c 0 buf ls = Some (Inr (buf, ls))"
    by (simp add: scan.simps [of _ _ 0])
next
  assume a: "reaches (content, bad) c (OuterHead, p, buf, ls) \<and>
    step (content, bad) c (OuterHead, p, buf, ls) (loc', p', buf', ls')"
  then have "p \<le> length content" using reaches_position [of "(content, bad)" c] by fastforce
  note f = step_fetch [OF conjunct2 [OF a] assms this]
  show "min c p \<le> p" by simp
  from f show "0 < p" by (rule conjunct1)
  from f show "p' = p - min c p" by blast
  from f show "p' < p" by blast
  from f show "buf' = take (min c p) (drop p' content) @ buf" by blast
  from f show "length (take (min c p) (drop p' content)) = min c p" by blast
next
  assume a: "0 < p \<and> p \<le> length content \<and> p - min c p \<notin> set bad"
  show "min c p \<le> p" by simp
  from a assms show "p - min c p < p" by auto
  from a show rd: "seek_read (content, bad) (p - min c p) (min c p)
      = Inr (take (min c p) (drop (p - min c p) content))"
    by (simp add: seek_read_def)
  from a show "length (take (min c p) (drop (p - min c p) content)) = min c p"
    by auto
  from a have pos: "0 < p" by simp
  show "scan (content, bad) c p buf ls =
      (case extract_lines (take (min c p) (drop (p - min c p) content) @ buf) ls of
         (buf1, ls1) \<Rightarrow> scan (content, bad) c (p - min c p) buf1 ls1)"
    by (subst scan.simps [of "(content, bad)" c p buf ls]) (simp only: pos if_True Let_def rd sum.case)
qed

theorem C6_cursor_and_termination_witness:
  "(1 :: nat) \<le> 3 \<and>
   reaches ([0x61, 0x62, 0x0A, 0x63], []) 3 (OuterHead, 4, [], []) \<and>
   step ([0x61, 0x62, 0x0A, 0x63], []) 3 (OuterHead, 4, [], [])
     (InnerHead, 1, [0x62, 0x0A, 0x63], []) \<and>
   (0 :: nat) < 4 \<and> (4 :: nat) \<le> length [0x61 :: byte, 0x62, 0x0A, 0x63] \<and>
   4 - min 3 4 \<notin> set ([] :: nat list) \<and>
   (1 :: nat) \<le> 4 \<and> (1 :: nat) < 4 \<and>
   [0x62, 0x0A, 0x63] = take (min 3 4) (drop 1 [0x61 :: byte, 0x62, 0x0A, 0x63]) @ [] \<and>
   scan ([0x61, 0x62, 0x0A, 0x63], []) 3 4 [] [] = Some (Inr ([0x61, 0x62], [[99, 10]])) \<and>
   resume ([0x61, 0x62, 0x0A, 0x63], []) 3 (InnerHead, 1, [0x62, 0x0A, 0x63], [])
     = Some (Inr ([0x61, 0x62], [[99, 10]])) \<and>
   reaches ([0x61, 0x62, 0x0A, 0x63], []) 3 (OuterHead, 0, [0x61, 0x62], [[99, 10]]) \<and>
   (\<exists>r. reverse_lines_chunked (RegularFile [0x61, 0x62, 0x0A, 0x63] []) 3 = Some r)"
proof -
  let ?F = "[0x61 :: byte, 0x62, 0x0A, 0x63]"
  have len: "length ?F = 4"
    by simp
  have i: "reaches (?F, []) 3 (OuterHead, 4, [], [])"
    using reaches_initial [of ?F "[]" 3] unfolding len .
  have "step (?F, []) 3 (OuterHead, 4, [], []) (InnerHead, 4 - 3, [0x62, 0x0A, 0x63] @ [], [])"
    by (rule step.fetch) (simp_all add: seek_read_def)
  then have s: "step (?F, []) 3 (OuterHead, 4, [], []) (InnerHead, 1, [0x62, 0x0A, 0x63], [])"
    by simp
  have v: "scan (?F, []) 3 4 [] [] = Some (Inr ([0x61, 0x62], [[99, 10]]))"
    by code_simp
  have one: "(1 :: nat) \<le> 3" by simp
  note inst = C6_cursor_and_termination [OF one, of ?F "[]" OuterHead 4 "[]" "[]"
      InnerHead 1 "[0x62, 0x0A, 0x63]" "[]"]
  from inst [THEN conjunct1] obtain r where r: "scan (?F, []) 3 (length ?F) [] [] = Some r"
    and all: "\<forall>cfg. reaches (?F, []) 3 cfg \<longrightarrow> resume (?F, []) 3 cfg = Some r"
    and fin: "\<forall>buf ls. r = Inr (buf, ls) \<longrightarrow> reaches (?F, []) 3 (OuterHead, 0, buf, ls)"
    by blast
  from r v have r': "r = Inr ([0x61, 0x62], [[99, 10]])" unfolding len by simp
  from all reaches_step [OF i s] r'
  have res: "resume (?F, []) 3 (InnerHead, 1, [0x62, 0x0A, 0x63], [])
     = Some (Inr ([0x61, 0x62], [[99, 10]]))" by simp
  from fin r' have end0: "reaches (?F, []) 3 (OuterHead, 0, [0x61, 0x62], [[99, 10]])"
    by simp
  from inst have "\<exists>r. reverse_lines_chunked (RegularFile ?F []) 3 = Some r"
    by (elim conjE) assumption
  with i s v res end0 show ?thesis by simp
qed












end
